theory Spec2Isabelle
  imports Main "HOL-Library.Word" "HOL-Library.AList"
begin

unbundle bit_operations_syntax

section \<open>Data model of package wc\<close>

text \<open>
  Go's \<open>byte\<close> is an 8-bit word, the counters are \<open>uint64\<close> (addition wraps), a
  \<open>rune\<close> is a 32-bit integer. The \<open>error\<close> interface is a datatype with \<open>io.EOF\<close>
  singled out, since \<open>CountReader\<close> compares against it; \<open>nil\<close> is \<open>None\<close>.
\<close>

type_synonym byte = "8 word"
type_synonym uint64 = "64 word"
type_synonym rune = "32 word"

datatype error = EOF | IOError string

text \<open>\<open>locale.Info\<close> (locale.go).\<close>

record Info =
  Encoding :: string
  IsUTF8 :: bool
  IsCOrPOSIX :: bool

text \<open>
  \<open>Metrics\<close> (wc.go). Its fields carry the prefix \<open>m_\<close>, because \<open>FileResult\<close> has
  fields of the same names.
\<close>

record Metrics =
  m_Lines :: bool
  m_Words :: bool
  m_Bytes :: bool
  m_Chars :: bool
  m_MaxLineBytes :: bool
  m_MaxLineChars :: bool

record Options =
  BufferSize :: int
  Locale :: Info

record FileResult =
  Index :: int
  Filename :: string
  Lines :: uint64
  Words :: uint64
  Bytes :: uint64
  Chars :: uint64
  MaxLineBytes :: uint64
  MaxLineChars :: uint64
  Err :: "error option"
  Duration :: int

text \<open>The zero value \<open>var res FileResult\<close>.\<close>

definition zeroResult :: FileResult where
  "zeroResult = \<lparr>Index = 0, Filename = [], Lines = 0, Words = 0, Bytes = 0, Chars = 0,
     MaxLineBytes = 0, MaxLineChars = 0, Err = None, Duration = 0\<rparr>"

text \<open>
  The local variables of \<open>CountReader\<close> that live across iterations of its read loop.
\<close>

record cstate =
  res :: FileResult
  prevSpace :: bool
  curLineBytes :: uint64
  curLineChars :: uint64
  asciiMode :: bool
  carry :: "byte list"

section \<open>The whitespace table (ascii.go)\<close>

definition asciiSpace :: "byte \<Rightarrow> bool" where
  "asciiSpace b = (b = 0x09 \<or> b = 0x0A \<or> b = 0x0B \<or> b = 0x0C \<or> b = 0x0D \<or> b = 0x20)"

section \<open>Library functions used by CountReader\<close>

text \<open>
  \<open>utf8.DecodeRune\<close> and \<open>unicode.IsSpace\<close> belong to the Go standard library. They
  are written here after the library's own code: the table \<open>first\<close> of lead bytes,
  the accept ranges of the second byte, and the White_Space ranges.
\<close>

definition RuneError :: rune where
  "RuneError = 0xFFFD"

text \<open>
  \<open>first[p0]\<close>: \<open>0xF0\<close> for ASCII, \<open>0xF1\<close> for an invalid lead byte, otherwise the
  size in the low three bits and the index of the accept range in the high four.
\<close>

definition first :: "byte \<Rightarrow> byte" where
  "first p0 =
     (if p0 < 0x80 then 0xF0
      else if p0 < 0xC2 then 0xF1
      else if p0 < 0xE0 then 0x02
      else if p0 = 0xE0 then 0x13
      else if p0 < 0xED then 0x03
      else if p0 = 0xED then 0x23
      else if p0 < 0xF0 then 0x03
      else if p0 = 0xF0 then 0x34
      else if p0 < 0xF4 then 0x04
      else if p0 = 0xF4 then 0x44
      else 0xF1)"

definition acceptRanges :: "byte \<Rightarrow> byte \<times> byte" where
  "acceptRanges i =
     (if i = 0 then (0x80, 0xBF)
      else if i = 1 then (0xA0, 0xBF)
      else if i = 2 then (0x80, 0x9F)
      else if i = 3 then (0x90, 0xBF)
      else if i = 4 then (0x80, 0x8F)
      else (0, 0))"

definition DecodeRune :: "byte list \<Rightarrow> rune \<times> nat" where
  "DecodeRune p =
     (if length p < 1 then (RuneError, 0)
      else
        let p0 = p ! 0; x = first p0 in
        if x \<ge> 0xF0 then (if x = 0xF0 then (ucast p0, 1) else (RuneError, 1))
        else
          let sz = unat (x AND 7); (lo, hi) = acceptRanges (drop_bit 4 x) in
          if length p < sz then (RuneError, 1)
          else
            let b1 = p ! 1 in
            if b1 < lo \<or> hi < b1 then (RuneError, 1)
            else if sz \<le> 2 then
              (push_bit 6 (ucast (p0 AND 0x1F)) OR ucast (b1 AND 0x3F), 2)
            else
              let b2 = p ! 2 in
              if b2 < 0x80 \<or> 0xBF < b2 then (RuneError, 1)
              else if sz \<le> 3 then
                (push_bit 12 (ucast (p0 AND 0x0F)) OR push_bit 6 (ucast (b1 AND 0x3F))
                   OR ucast (b2 AND 0x3F), 3)
              else
                let b3 = p ! 3 in
                if b3 < 0x80 \<or> 0xBF < b3 then (RuneError, 1)
                else
                  (push_bit 18 (ucast (p0 AND 0x07)) OR push_bit 12 (ucast (b1 AND 0x3F))
                     OR push_bit 6 (ucast (b2 AND 0x3F)) OR ucast (b3 AND 0x3F), 4))"

definition IsSpace :: "rune \<Rightarrow> bool" where
  "IsSpace r =
     (if r \<le> 0xFF then
        (r = 0x09 \<or> r = 0x0A \<or> r = 0x0B \<or> r = 0x0C \<or> r = 0x0D \<or> r = 0x20
           \<or> r = 0x85 \<or> r = 0xA0)
      else
        (r = 0x1680 \<or> (0x2000 \<le> r \<and> r \<le> 0x200A) \<or> r = 0x2028 \<or> r = 0x2029
           \<or> r = 0x202F \<or> r = 0x205F \<or> r = 0x3000))"

lemma DecodeRune_size_pos: "p \<noteq> [] \<Longrightarrow> 0 < snd (DecodeRune p)"
  by (cases p) (simp_all add: DecodeRune_def Let_def split: prod.split)

section \<open>CountReader (wc.go)\<close>

text \<open>
  The block executed on a newline when \<open>m.Lines\<close> is set. The source has it three
  times, with the same text: in the ASCII fast path, for an invalid byte, and for a
  decoded rune.
\<close>

definition line_end :: "Metrics \<Rightarrow> cstate \<Rightarrow> cstate" where
  "line_end m s =
     (let r1 = (res s)\<lparr>Lines := Lines (res s) + 1\<rparr>;
          r2 = (if m_MaxLineBytes m \<and> curLineBytes s > MaxLineBytes r1
                then r1\<lparr>MaxLineBytes := curLineBytes s\<rparr> else r1);
          r3 = (if m_MaxLineChars m \<and> curLineChars s > MaxLineChars r2
                then r2\<lparr>MaxLineChars := curLineChars s\<rparr> else r2)
      in s\<lparr>res := r3, curLineBytes := 0, curLineChars := 0\<rparr>)"

text \<open>\<open>if m.MaxLineBytes { curLineBytes += k }; if m.MaxLineChars { curLineChars++ }\<close>\<close>

definition line_grow :: "Metrics \<Rightarrow> uint64 \<Rightarrow> cstate \<Rightarrow> cstate" where
  "line_grow m k s =
     (let s1 = (if m_MaxLineBytes m then s\<lparr>curLineBytes := curLineBytes s + k\<rparr> else s)
      in if m_MaxLineChars m then s1\<lparr>curLineChars := curLineChars s1 + 1\<rparr> else s1)"

text \<open>
  \<open>if m.Words { if !sp && prevSpace { res.Words++ }; prevSpace = sp }\<close>, which the
  source has three times as well.
\<close>

definition word_edge :: "Metrics \<Rightarrow> bool \<Rightarrow> cstate \<Rightarrow> cstate" where
  "word_edge m sp s =
     (if m_Words m then
        (let s1 = (if \<not> sp \<and> prevSpace s
                   then s\<lparr>res := (res s)\<lparr>Words := Words (res s) + 1\<rparr>\<rparr> else s)
         in s1\<lparr>prevSpace := sp\<rparr>)
      else s)"

definition count_char :: "Metrics \<Rightarrow> cstate \<Rightarrow> cstate" where
  "count_char m s =
     (if m_Chars m then s\<lparr>res := (res s)\<lparr>Chars := Chars (res s) + 1\<rparr>\<rparr> else s)"

text \<open>The body of the loop \<open>for _, b := range chunk\<close> of the ASCII fast path.\<close>

definition ascii_byte :: "Metrics \<Rightarrow> cstate \<Rightarrow> byte \<Rightarrow> cstate" where
  "ascii_byte m s b =
     word_edge m (asciiSpace b)
       (if m_Lines m \<and> b = 0x0A then line_end m s else line_grow m 1 s)"

text \<open>The branch \<open>r == utf8.RuneError && size == 1\<close> of the decoding loop.\<close>

definition invalid_byte :: "Metrics \<Rightarrow> cstate \<Rightarrow> byte \<Rightarrow> cstate" where
  "invalid_byte m s b =
     (let s1 = line_grow m 1 (count_char m s);
          s2 = (if m_Lines m \<and> b = 0x0A then line_end m s1 else s1)
      in word_edge m (asciiSpace b) s2)"

text \<open>
  The rest of the body of the decoding loop: a rune \<open>r\<close> decoded from \<open>sz\<close> bytes
  (\<open>size\<close> in the source).
\<close>

definition valid_rune :: "Metrics \<Rightarrow> cstate \<Rightarrow> rune \<Rightarrow> nat \<Rightarrow> cstate" where
  "valid_rune m s r sz =
     (let s1 = word_edge m (IsSpace r) (count_char m s)
      in if m_Lines m then
           (if r = 0x0A then line_end m s1 else line_grow m (of_nat sz) s1)
         else line_grow m (of_nat sz) s1)"

text \<open>
  \<open>for len(data) > 0 { ... }\<close>: returns the state and what is left of \<open>data\<close> when the
  loop ends.
\<close>

function decode_loop :: "Metrics \<Rightarrow> cstate \<Rightarrow> byte list \<Rightarrow> cstate \<times> byte list" where
  "decode_loop m s [] = (s, [])"
| "decode_loop m s (b # bs) =
     (case DecodeRune (b # bs) of (r, sz) \<Rightarrow>
        if r = RuneError \<and> sz = 1 then decode_loop m (invalid_byte m s b) bs
        else decode_loop m (valid_rune m s r sz) (drop sz (b # bs)))"
  by pat_completeness auto
termination
  apply (relation "measure (\<lambda>(m, s, data). length data)")
    apply simp
   apply simp
  subgoal for m s b bs
    using DecodeRune_size_pos [of "b # bs"] by (cases "DecodeRune (b # bs)") auto
  done

text \<open>
  One iteration of the read loop with \<open>n > 0\<close>: \<open>chunk = buf[:n]\<close>. \<open>loc\<close> is
  \<open>opt.Locale\<close>.
\<close>

definition process_chunk :: "Metrics \<Rightarrow> Info \<Rightarrow> cstate \<Rightarrow> byte list \<Rightarrow> cstate" where
  "process_chunk m loc s chunk =
     (let s0 = s\<lparr>res := (res s)\<lparr>Bytes := Bytes (res s) + of_nat (length chunk)\<rparr>\<rparr>;
          s1 = (if asciiMode s0 \<and> \<not> IsCOrPOSIX loc \<and> (\<exists>b \<in> set chunk. b \<ge> 0x80)
                then s0\<lparr>asciiMode := False\<rparr> else s0)
      in if asciiMode s1 then
           (let s2 = foldl (ascii_byte m) s1 chunk
            in if m_Chars m
               then s2\<lparr>res := (res s2)\<lparr>Chars := Chars (res s2) + of_nat (length chunk)\<rparr>\<rparr>
               else s2)
         else
           (case decode_loop m (s1\<lparr>carry := []\<rparr>) (carry s1 @ chunk) of (s2, data) \<Rightarrow>
              if length chunk > 0 \<and> length data > 0
              then s2\<lparr>carry := carry s2 @ data\<rparr> else s2))"

text \<open>
  The byte source. \<open>CountReader\<close> sees its reader only through the outcomes
  \<open>(n, err)\<close> of the successive calls \<open>r.Read(buf)\<close>; a source is the list of these
  outcomes, the bytes \<open>buf[:n]\<close> paired with the error (\<open>None\<close> for \<open>nil\<close>). A call
  after the last listed outcome returns \<open>(0, io.EOF)\<close>, as \<open>bytesReader\<close> does once
  its slice is used up.
\<close>

type_synonym reads = "(byte list \<times> error option) list"

fun read_loop :: "Metrics \<Rightarrow> Info \<Rightarrow> cstate \<Rightarrow> reads \<Rightarrow> cstate" where
  "read_loop m loc s [] = s"
| "read_loop m loc s ((chunk, err) # rest) =
     (let s1 = (if length chunk > 0 then process_chunk m loc s chunk else s)
      in case err of
           None \<Rightarrow> read_loop m loc s1 rest
         | Some EOF \<Rightarrow> s1
         | Some e \<Rightarrow> s1\<lparr>res := (res s1)\<lparr>Err := Some e\<rparr>\<rparr>)"

definition init_state :: "Info \<Rightarrow> cstate" where
  "init_state loc = \<lparr>res = zeroResult, prevSpace = True, curLineBytes = 0, curLineChars = 0,
     asciiMode = (IsCOrPOSIX loc \<or> IsUTF8 loc), carry = []\<rparr>"

text \<open>The statements after the read loop.\<close>

definition finalize :: "Metrics \<Rightarrow> cstate \<Rightarrow> FileResult" where
  "finalize m s =
     (if Err (res s) = None then
        (let r1 = (if m_MaxLineBytes m \<and> curLineBytes s > MaxLineBytes (res s)
                   then (res s)\<lparr>MaxLineBytes := curLineBytes s\<rparr> else res s)
         in if m_MaxLineChars m \<and> curLineChars s > MaxLineChars r1
            then r1\<lparr>MaxLineChars := curLineChars s\<rparr> else r1)
      else res s)"

definition CountReader :: "reads \<Rightarrow> Metrics \<Rightarrow> Options \<Rightarrow> FileResult" where
  "CountReader r m opt = finalize m (read_loop m (Locale opt) (init_state (Locale opt)) r)"

section \<open>CountBytes and the chunks of a buffered reader\<close>

text \<open>\<open>chop k xs\<close> cuts \<open>xs\<close> into pieces of \<open>k\<close> elements, the last one maybe shorter.\<close>

function chop :: "nat \<Rightarrow> 'a list \<Rightarrow> 'a list list" where
  "chop k xs = (if k = 0 \<or> xs = [] then [] else take k xs # chop k (drop k xs))"
  by pat_completeness auto
termination
  by (relation "measure (\<lambda>(k, xs). length xs)") auto

declare chop.simps [simp del]

text \<open>
  \<open>CountBytes\<close> wraps a \<open>bytesReader\<close> in \<open>bufio.NewReaderSize(_, opt.BufferSize)\<close>.
  \<open>bytesReader.Read(p)\<close> copies \<open>min(len(p), len(b) - off)\<close> bytes, and returns
  \<open>(0, io.EOF)\<close> when none is left. The buffered reader of the standard library has a
  buffer of \<open>max(size, 16)\<close> bytes; \<open>Read(p)\<close> on an empty buffer reads straight into
  \<open>p\<close> when \<open>len(p)\<close> is at least the buffer's size, and otherwise fills the buffer
  with one read and hands out \<open>len(p)\<close> bytes of it per call. So the chunks are the
  pieces of \<open>k\<close> bytes for \<open>k \<ge> 16\<close>, and for smaller \<open>k\<close> the pieces of \<open>k\<close> bytes of
  each block of 16.
\<close>

definition bufio_reads :: "nat \<Rightarrow> byte list \<Rightarrow> reads" where
  "bufio_reads k b =
     map (\<lambda>c. (c, None)) (if k \<ge> 16 then chop k b else concat (map (chop k) (chop 16 b)))
       @ [([], Some EOF)]"

text \<open>
  \<open>make([]byte, opt.BufferSize)\<close> panics for a negative size, and with a buffer of
  length 0 every \<open>Read\<close> returns \<open>(0, nil)\<close>, so the read loop never ends: there is a
  result only for a positive \<open>BufferSize\<close>.
\<close>

definition CountBytes :: "byte list \<Rightarrow> Metrics \<Rightarrow> Options \<Rightarrow> FileResult option" where
  "CountBytes b m opt =
     (if BufferSize opt < 1 then None
      else Some (CountReader (bufio_reads (nat (BufferSize opt)) b) m opt))"

section \<open>Collecting the results in function main\<close>

text \<open>
  The workers send one \<open>FileResult\<close> per job on the channel \<open>results\<close>; \<open>main\<close>
  receives them in whatever order they arrive. The model takes that order as its
  input: the list of the results as received. The map \<open>pending\<close> is an association
  list without duplicate keys; \<open>next_idx\<close> is the variable \<open>next\<close> and \<open>released\<close>
  the slice \<open>all\<close>, both renamed because Isabelle reserves these words.
\<close>

record collector =
  pending :: "(int \<times> FileResult) list"
  next_idx :: int
  exitCode :: int
  released :: "FileResult list"

lemma length_delete_less:
  "map_of al k = Some v \<Longrightarrow> length (AList.delete k al) < length al"
  by (induction al) (auto simp: less_Suc_eq_le length_filter_le AList.delete_eq split: if_splits)

text \<open>The inner loop \<open>for { if pr, ok := pending[next]; ok { ... } else { break } }\<close>.\<close>

function drain :: "collector \<Rightarrow> collector" where
  "drain c =
     (case map_of (pending c) (next_idx c) of
        Some pr \<Rightarrow>
          drain (c\<lparr>released := released c @ [pr],
                    pending := AList.delete (next_idx c) (pending c),
                    next_idx := next_idx c + 1\<rparr>)
      | None \<Rightarrow> c)"
  by pat_completeness auto
termination
  by (relation "measure (\<lambda>c. length (pending c))") (auto simp: length_delete_less)

declare drain.simps [simp del]

text \<open>The body of \<open>for range inputs\<close> for the received result \<open>r\<close>.\<close>

definition collect_step :: "collector \<Rightarrow> FileResult \<Rightarrow> collector" where
  "collect_step c r =
     (let c1 = (if Err r \<noteq> None then c\<lparr>exitCode := 1\<rparr> else c)
      in drain (c1\<lparr>pending := AList.update (Index r) r (pending c1)\<rparr>))"

definition collect_init :: collector where
  "collect_init = \<lparr>pending = [], next_idx = 0, exitCode = 0, released = []\<rparr>"

definition collect :: "FileResult list \<Rightarrow> collector" where
  "collect arrivals = foldl collect_step collect_init arrivals"






section \<open>Auxiliary definitions\<close>

text \<open>
  \<open>frame m s t\<close>: from \<open>s\<close> to \<open>t\<close> neither \<open>Bytes\<close>, \<open>Err\<close>, the mode, the carry
  nor any counter of a metric that \<open>m\<close> does not select has changed. Every step of
  the two scanning loops stays within this frame.
\<close>

definition frame :: "Metrics \<Rightarrow> cstate \<Rightarrow> cstate \<Rightarrow> bool" where
  "frame m s t \<longleftrightarrow>
     Bytes (res t) = Bytes (res s) \<and> Err (res t) = Err (res s)
     \<and> asciiMode t = asciiMode s \<and> carry t = carry s
     \<and> (\<not> m_Lines m \<longrightarrow> Lines (res t) = Lines (res s))
     \<and> (\<not> m_Words m \<longrightarrow> Words (res t) = Words (res s))
     \<and> (\<not> m_Chars m \<longrightarrow> Chars (res t) = Chars (res s))
     \<and> (\<not> m_MaxLineBytes m \<longrightarrow> MaxLineBytes (res t) = MaxLineBytes (res s))
     \<and> (\<not> m_MaxLineChars m \<longrightarrow> MaxLineChars (res t) = MaxLineChars (res s))"





text \<open>
  \<open>loop_states\<close> lists the state at the end of every iteration of the read loop of
  \<open>CountReader\<close>, following \<open>read_loop\<close> clause by clause (\<open>read_loop\<close> returns the
  last of them, see \<open>read_loop_last\<close>); \<open>mode_trace\<close> is the value of \<open>asciiMode\<close>
  before the first read and after each iteration, and \<open>switches\<close> counts the places
  where two successive values differ.
\<close>

fun loop_states :: "Metrics \<Rightarrow> Info \<Rightarrow> cstate \<Rightarrow> reads \<Rightarrow> cstate list" where
  "loop_states m loc s [] = []"
| "loop_states m loc s ((chunk, err) # rest) =
     (let s1 = (if length chunk > 0 then process_chunk m loc s chunk else s)
      in s1 # (case err of None \<Rightarrow> loop_states m loc s1 rest | Some e \<Rightarrow> []))"



text \<open>
  The invariant of the receive loop of \<open>main\<close>, for the results \<open>as\<close> received so
  far: the released results have the indices \<open>0, 1, ...\<close> up to \<open>next_idx\<close>; every
  entry of \<open>pending\<close> is a received result stored under its own index, which has not
  been released; and every received result is either released or pending.
\<close>

definition collector_inv :: "FileResult list \<Rightarrow> collector \<Rightarrow> bool" where
  "collector_inv as c \<longleftrightarrow>
     0 \<le> next_idx c
     \<and> map Index (released c) = map int [0..<nat (next_idx c)]
     \<and> set (released c) \<subseteq> set as
     \<and> (\<forall>i r. map_of (pending c) i = Some r \<longrightarrow> r \<in> set as \<and> Index r = i \<and> next_idx c \<le> i)
     \<and> (\<forall>r \<in> set as. Index r < next_idx c \<or> map_of (pending c) (Index r) = Some r)"





subsection \<open>Inputs of the examples\<close>

text \<open>
  \<open>Metrics{}\<close>, \<open>locale.Info{IsUTF8: true}\<close> and \<open>locale.Info{IsCOrPOSIX: true}\<close>, as
  the tests write them; \<open>locale.Info{}\<close> is what \<open>Detect\<close> returns (up to the
  encoding's name) for a codeset that is neither UTF-8 nor C/POSIX.
\<close>

definition noMetrics :: Metrics where
  "noMetrics = \<lparr>m_Lines = False, m_Words = False, m_Bytes = False, m_Chars = False,
     m_MaxLineBytes = False, m_MaxLineChars = False\<rparr>"


definition utf8Locale :: Info where
  "utf8Locale = \<lparr>Encoding = [], IsUTF8 = True, IsCOrPOSIX = False\<rparr>"


definition otherLocale :: Info where
  "otherLocale = \<lparr>Encoding = [], IsUTF8 = False, IsCOrPOSIX = False\<rparr>"

text \<open>A result as a worker sends it, reduced to its index.\<close>

definition result_at :: "int \<Rightarrow> FileResult" where
  "result_at i = zeroResult\<lparr>Index := i\<rparr>"


section \<open>Properties of the counting steps\<close>

lemma frame_refl: "frame m s s"
  by (simp add: frame_def)

lemma frame_trans: "frame m s t \<Longrightarrow> frame m t u \<Longrightarrow> frame m s u"
  by (simp add: frame_def)

lemma frame_line_end: "m_Lines m \<Longrightarrow> frame m s (line_end m s)"
  by (simp add: frame_def line_end_def Let_def)

lemma frame_line_grow: "frame m s (line_grow m k s)"
  by (simp add: frame_def line_grow_def Let_def)

lemma frame_word_edge: "frame m s (word_edge m sp s)"
  by (simp add: frame_def word_edge_def Let_def)

lemma frame_count_char: "frame m s (count_char m s)"
  by (simp add: frame_def count_char_def)


lemma frame_invalid_byte: "frame m s (invalid_byte m s b)"
  unfolding invalid_byte_def Let_def
  by (cases "m_Lines m \<and> b = 0x0A")
     (auto intro!: frame_trans [OF _ frame_word_edge] frame_trans [OF _ frame_line_end]
        frame_trans [OF frame_count_char frame_line_grow])

lemma frame_valid_rune: "frame m s (valid_rune m s r sz)"
  unfolding valid_rune_def Let_def
  by (auto intro!: frame_trans [OF _ frame_line_end] frame_trans [OF _ frame_line_grow]
        frame_trans [OF frame_count_char frame_word_edge])


lemma frame_decode_loop: "frame m s (fst (decode_loop m s data))"
proof (induction m s data rule: decode_loop.induct)
  case (1 m s)
  show ?case by (simp add: frame_refl)
next
  case (2 m s b bs)
  obtain r sz where d: "DecodeRune (b # bs) = (r, sz)"
    by (cases "DecodeRune (b # bs)")
  show ?case
  proof (cases "r = RuneError \<and> sz = 1")
    case True
    with 2(1) [OF d [symmetric]] d frame_invalid_byte [of m s b] show ?thesis
      by (auto intro: frame_trans)
  next
    case False
    with 2(2) [OF d [symmetric]] d frame_valid_rune [of m s r sz] show ?thesis
      by (auto intro: frame_trans)
  qed
qed

text \<open>The decoding loop leaves nothing of \<open>data\<close>: it ends only on \<open>len(data) = 0\<close>.\<close>

lemma decode_loop_left: "snd (decode_loop m s data) = []"
proof (induction m s data rule: decode_loop.induct)
  case (1 m s)
  show ?case by simp
next
  case (2 m s b bs)
  obtain r sz where d: "DecodeRune (b # bs) = (r, sz)"
    by (cases "DecodeRune (b # bs)")
  show ?case
    using 2(1) [OF d [symmetric]] 2(2) [OF d [symmetric]] d by simp
qed



section \<open>The bytes read and the counters of unselected metrics\<close>












lemma concat_chop: "concat (chop k xs) = (if k = 0 then [] else xs)"
proof (induction k xs rule: chop.induct)
  case (1 k xs)
  then show ?case
    by (subst chop.simps) auto
qed






section \<open>The mode of the read loop\<close>

lemma read_loop_last:
  "asciiMode (read_loop m loc s rd) = asciiMode (last (s # loop_states m loc s rd))"
proof (induction rd arbitrary: s)
  case Nil
  show ?case by simp
next
  case (Cons a rd)
  obtain chunk err where a: "a = (chunk, err)" by (cases a)
  show ?case
  proof (cases err)
    case None
    then show ?thesis using Cons.IH by (simp add: a Let_def)
  next
    case (Some e)
    then show ?thesis by (cases e) (simp_all add: a Let_def)
  qed
qed

lemma length_loop_states: "length (loop_states m loc s rd) \<le> length rd"
proof (induction rd arbitrary: s)
  case Nil
  show ?case by simp
next
  case (Cons a rd)
  obtain chunk err where a: "a = (chunk, err)" by (cases a)
  show ?case using Cons.IH by (cases err) (simp_all add: a Let_def)
qed





section \<open>Bytes as runes\<close>

lemma uint_ucast_byte: "uint (ucast (b::byte) :: rune) = uint b"
  by (simp add: uint_up_ucast is_up)


lemma ucast_byte_eq_numeral:
  "((ucast (b::byte) :: rune) = numeral n) = (uint b = uint (numeral n :: rune))"
  by (simp add: word_uint_eq_iff uint_ucast_byte)



lemma byte_le_numeral: "((numeral n :: byte) \<le> b) = (uint (numeral n :: byte) \<le> uint b)"
  by (simp add: word_le_def)



lemma ucast_byte_not_RuneError: "(ucast (b::byte) :: rune) \<noteq> RuneError"
proof -
  have "uint b < 256" using uint_lt2p [of b] by simp
  then show ?thesis by (simp add: RuneError_def ucast_byte_eq_numeral)
qed

lemma DecodeRune_ascii: "b < 0x80 \<Longrightarrow> DecodeRune (b # bs) = (ucast b, 1)"
  by (simp add: DecodeRune_def first_def Let_def)

lemma DecodeRune_invalid_hi:
  assumes "DecodeRune (b # bs) = (RuneError, 1)"
  shows "b \<ge> 0x80"
proof (rule ccontr)
  assume "\<not> b \<ge> 0x80"
  then have "b < 0x80" by simp
  from DecodeRune_ascii [OF this, of bs] assms have "ucast b = RuneError"
    by simp
  then show False
    using ucast_byte_not_RuneError [of b] by simp
qed

lemma not_asciiSpace_hi: "b \<ge> 0x80 \<Longrightarrow> \<not> asciiSpace b"
  by (auto simp: asciiSpace_def)

section \<open>The fast path and the decoding loop on ASCII bytes\<close>









lemma count_char_mode: "count_char m (s\<lparr>asciiMode := a\<rparr>) = (count_char m s)\<lparr>asciiMode := a\<rparr>"
  by (simp add: count_char_def)


















lemma set_concat_chop: "0 < k \<Longrightarrow> set (concat (chop k xs)) = set xs"
  by (simp add: concat_chop)


section \<open>The collector keeps the input order\<close>

lemma collector_inv_init: "collector_inv [] collect_init"
  by (simp add: collector_inv_def collect_init_def)

lemma upt_nat_Suc: "0 \<le> k \<Longrightarrow> map int [0..<nat (k + 1)] = map int [0..<nat k] @ [k]"
  by (simp add: nat_add_distrib)

lemma drain_step_inv:
  assumes "collector_inv as c" "map_of (pending c) (next_idx c) = Some pr"
  shows "collector_inv as (c\<lparr>released := released c @ [pr],
                              pending := AList.delete (next_idx c) (pending c),
                              next_idx := next_idx c + 1\<rparr>)"
proof -
  from assms have pr: "pr \<in> set as" "Index pr = next_idx c" and n: "0 \<le> next_idx c"
    by (auto simp: collector_inv_def)
  have 1: "map Index (released c @ [pr]) = map int [0..<nat (next_idx c + 1)]"
    using assms(1) pr n by (simp add: collector_inv_def upt_nat_Suc del: upt_Suc)
  have 2: "\<forall>i r. map_of (AList.delete (next_idx c) (pending c)) i = Some r
             \<longrightarrow> r \<in> set as \<and> Index r = i \<and> next_idx c + 1 \<le> i"
  proof (intro allI impI)
    fix i r assume "map_of (AList.delete (next_idx c) (pending c)) i = Some r"
    then have "i \<noteq> next_idx c" "map_of (pending c) i = Some r"
      by (auto simp: delete_conv' split: if_splits)
    with assms(1) show "r \<in> set as \<and> Index r = i \<and> next_idx c + 1 \<le> i"
      by (fastforce simp: collector_inv_def)
  qed
  have 3: "\<forall>r \<in> set as. Index r < next_idx c + 1
             \<or> map_of (AList.delete (next_idx c) (pending c)) (Index r) = Some r"
  proof
    fix r assume "r \<in> set as"
    with assms(1) have "Index r < next_idx c \<or> map_of (pending c) (Index r) = Some r"
      by (simp add: collector_inv_def)
    then show "Index r < next_idx c + 1
             \<or> map_of (AList.delete (next_idx c) (pending c)) (Index r) = Some r"
      by (cases "Index r = next_idx c") (auto simp: delete_conv')
  qed
  show ?thesis
    using 1 2 3 n pr(1) assms(1) by (simp add: collector_inv_def)
qed

lemma drain_inv:
  "collector_inv as c \<Longrightarrow>
     collector_inv as (drain c) \<and> map_of (pending (drain c)) (next_idx (drain c)) = None
     \<and> exitCode (drain c) = exitCode c"
proof (induction c rule: drain.induct)
  case (1 c)
  show ?case
  proof (cases "map_of (pending c) (next_idx c)")
    case None
    with 1(2) show ?thesis by (subst (1 2 3 4) drain.simps) simp
  next
    case (Some pr)
    from 1(1) [OF Some drain_step_inv [OF 1(2) Some]] Some show ?thesis
      by (subst (1 2 3 4) drain.simps) simp
  qed
qed

lemma released_indices_seen:
  assumes "collector_inv as c" "0 \<le> j" "j < next_idx c"
  shows "j \<in> Index ` set as"
proof -
  from assms(1) have m: "map Index (released c) = map int [0..<nat (next_idx c)]"
    and sub: "set (released c) \<subseteq> set as"
    by (simp_all add: collector_inv_def)
  have "length (map Index (released c)) = length (map int [0..<nat (next_idx c)])"
    by (simp only: m)
  then have len: "nat j < length (released c)"
    using assms(2,3) by simp
  then have "Index (released c ! nat j) = map Index (released c) ! nat j"
    by simp
  also have "\<dots> = map int [0..<nat (next_idx c)] ! nat j"
    by (simp only: m)
  also have "\<dots> = j"
    using assms(2,3) by simp
  finally have "Index (released c ! nat j) = j" .
  moreover have "released c ! nat j \<in> set as"
    using len sub by (meson nth_mem subsetD)
  ultimately show ?thesis
    by (metis image_eqI)
qed

lemma insert_inv:
  assumes "collector_inv as c" "Index r \<notin> Index ` set as" "0 \<le> Index r"
  shows "collector_inv (as @ [r])
           (c\<lparr>exitCode := e, pending := AList.update (Index r) r (pending c)\<rparr>)"
proof -
  from assms(1) have n: "0 \<le> next_idx c"
    and m: "map Index (released c) = map int [0..<nat (next_idx c)]"
    and sub: "set (released c) \<subseteq> set as"
    and pend: "\<And>i r. map_of (pending c) i = Some r \<Longrightarrow> r \<in> set as \<and> Index r = i \<and> next_idx c \<le> i"
    and seen: "\<And>r. r \<in> set as \<Longrightarrow> Index r < next_idx c \<or> map_of (pending c) (Index r) = Some r"
    unfolding collector_inv_def by blast+
  have ge: "next_idx c \<le> Index r"
  proof (rule ccontr)
    assume "\<not> next_idx c \<le> Index r"
    then have "Index r < next_idx c" by simp
    from released_indices_seen [OF assms(1) assms(3) this] assms(2) show False by simp
  qed
  have 2: "r' \<in> set (as @ [r]) \<and> Index r' = i \<and> next_idx c \<le> i"
    if h: "map_of (AList.update (Index r) r (pending c)) i = Some r'" for i r'
  proof (cases "i = Index r")
    case True
    with h ge show ?thesis by (simp add: update_conv')
  next
    case False
    with h have "map_of (pending c) i = Some r'" by (simp add: update_conv')
    from pend [OF this] show ?thesis by simp
  qed
  have 3: "Index r' < next_idx c
             \<or> map_of (AList.update (Index r) r (pending c)) (Index r') = Some r'"
    if h: "r' \<in> set (as @ [r])" for r'
  proof (cases "r' = r")
    case True
    then show ?thesis by (simp add: update_conv')
  next
    case False
    with h have in_as: "r' \<in> set as" by simp
    then have "Index r' \<in> Index ` set as" by (rule imageI)
    with assms(2) have "Index r' \<noteq> Index r" by auto
    with seen [OF in_as] show ?thesis by (simp add: update_conv')
  qed
  from sub have sub': "set (released c) \<subseteq> set (as @ [r])"
    by auto
  have q2: "\<forall>i r'. map_of (AList.update (Index r) r (pending c)) i = Some r'
             \<longrightarrow> r' \<in> set (as @ [r]) \<and> Index r' = i \<and> next_idx c \<le> i"
    using 2 by blast
  have q3: "\<forall>r' \<in> set (as @ [r]). Index r' < next_idx c
             \<or> map_of (AList.update (Index r) r (pending c)) (Index r') = Some r'"
    using 3 by blast
  have sel: "pending (c\<lparr>exitCode := e, pending := AList.update (Index r) r (pending c)\<rparr>)
               = AList.update (Index r) r (pending c)"
    "next_idx (c\<lparr>exitCode := e, pending := AList.update (Index r) r (pending c)\<rparr>)
               = next_idx c"
    "released (c\<lparr>exitCode := e, pending := AList.update (Index r) r (pending c)\<rparr>)
               = released c"
    by simp_all
  show ?thesis
    unfolding collector_inv_def sel
    using n m sub' q2 q3 by blast
qed

lemma collect_step_inv:
  assumes "collector_inv as c" "Index r \<notin> Index ` set as" "0 \<le> Index r"
  shows "collector_inv (as @ [r]) (collect_step c r)
     \<and> map_of (pending (collect_step c r)) (next_idx (collect_step c r)) = None
     \<and> exitCode (collect_step c r) = (if Err r \<noteq> None then 1 else exitCode c)"
proof (cases "Err r \<noteq> None")
  case True
  then have "collect_step c r
    = drain (c\<lparr>exitCode := 1, pending := AList.update (Index r) r (pending c)\<rparr>)"
    by (simp add: collect_step_def)
  with drain_inv [OF insert_inv [OF assms, of 1]] True show ?thesis by simp
next
  case False
  then have "collect_step c r
    = drain (c\<lparr>exitCode := exitCode c, pending := AList.update (Index r) r (pending c)\<rparr>)"
    by (simp add: collect_step_def)
  with drain_inv [OF insert_inv [OF assms, of "exitCode c"]] False show ?thesis by simp
qed

lemma collect_snoc: "collect (as @ [r]) = collect_step (collect as) r"
  by (simp add: collect_def)

lemma collect_inv:
  assumes "distinct (map Index as)" "\<forall>r \<in> set as. 0 \<le> Index r"
  shows "collector_inv as (collect as)
     \<and> map_of (pending (collect as)) (next_idx (collect as)) = None
     \<and> exitCode (collect as) = (if \<exists>r \<in> set as. Err r \<noteq> None then 1 else 0)"
  using assms
proof (induction as rule: rev_induct)
  case Nil
  show ?case by (simp add: collect_def collector_inv_init) (simp add: collect_init_def)
next
  case (snoc r as)
  then have ih: "collector_inv as (collect as)"
    and e: "exitCode (collect as) = (if \<exists>r \<in> set as. Err r \<noteq> None then 1 else 0)"
    and r: "Index r \<notin> Index ` set as" "0 \<le> Index r"
    by auto
  from collect_step_inv [OF ih r] e show ?case
    by (auto simp: collect_snoc)
qed

lemma drain_released: "\<exists>ys. released (drain c) = released c @ ys"
proof (induction c rule: drain.induct)
  case (1 c)
  show ?case
  proof (cases "map_of (pending c) (next_idx c)")
    case None
    then show ?thesis by (subst drain.simps) simp
  next
    case (Some pr)
    from 1 [OF Some] Some show ?thesis
      by (subst drain.simps) auto
  qed
qed

lemma collect_step_released: "\<exists>ys. released (collect_step c r) = released c @ ys"
  using drain_released
    [of "(if Err r \<noteq> None then c\<lparr>exitCode := 1\<rparr> else c)
           \<lparr>pending := AList.update (Index r) r
              (pending (if Err r \<noteq> None then c\<lparr>exitCode := 1\<rparr> else c))\<rparr>"]
  by (auto simp: collect_step_def Let_def)

lemma collect_released_append:
  "\<exists>ys. released (collect (xs @ zs)) = released (collect xs) @ ys"
proof (induction zs rule: rev_induct)
  case Nil
  show ?case by simp
next
  case (snoc z zs)
  then obtain ys where ys: "released (collect (xs @ zs)) = released (collect xs) @ ys"
    by blast
  obtain ys' where "released (collect_step (collect (xs @ zs)) z)
                      = released (collect (xs @ zs)) @ ys'"
    using collect_step_released by blast
  with ys show ?case
    using collect_snoc [of "xs @ zs" z] by simp
qed

lemma collect_final:
  assumes d: "distinct (map Index as)" and p: "Index ` set as = {0..<int (length as)}"
  shows "next_idx (collect as) = int (length as) \<and> pending (collect as) = []"
proof -
  have nn: "\<forall>r \<in> set as. 0 \<le> Index r"
    using p by auto
  from collect_inv [OF d nn]
  have inv: "collector_inv as (collect as)"
    and none: "map_of (pending (collect as)) (next_idx (collect as)) = None"
    by simp_all
  from inv have n: "0 \<le> next_idx (collect as)"
    and pend: "\<And>i r. map_of (pending (collect as)) i = Some r \<Longrightarrow>
                 r \<in> set as \<and> Index r = i \<and> next_idx (collect as) \<le> i"
    and seen: "\<And>r. r \<in> set as \<Longrightarrow>
                 Index r < next_idx (collect as) \<or> map_of (pending (collect as)) (Index r) = Some r"
    unfolding collector_inv_def by blast+
  have le: "next_idx (collect as) \<le> int (length as)"
  proof (rule ccontr)
    assume "\<not> next_idx (collect as) \<le> int (length as)"
    then have "int (length as) < next_idx (collect as)" by simp
    from released_indices_seen [OF inv _ this] have "int (length as) \<in> Index ` set as"
      by simp
    with p show False by simp
  qed
  have ge: "int (length as) \<le> next_idx (collect as)"
  proof (rule ccontr)
    assume "\<not> int (length as) \<le> next_idx (collect as)"
    with n have "next_idx (collect as) \<in> {0..<int (length as)}" by simp
    with p obtain r where r: "r \<in> set as" "Index r = next_idx (collect as)"
      by (metis imageE)
    from seen [OF r(1)] r(2) none show False by simp
  qed
  have "map_of (pending (collect as)) i = None" for i
  proof (cases "map_of (pending (collect as)) i")
    case None
    then show ?thesis .
  next
    case (Some r)
    from pend [OF Some] have "r \<in> set as" "Index r = i" "next_idx (collect as) \<le> i"
      by simp_all
    moreover from this p have "i < int (length as)" by auto
    ultimately show ?thesis using ge by simp
  qed
  then have "map_of (pending (collect as)) = Map.empty"
    by (rule ext)
  then have "pending (collect as) = []"
    by simp
  with le ge show ?thesis by simp
qed

lemma collect_prefix_state:
  assumes d: "distinct (map Index as)" and nn: "\<forall>r \<in> set as. 0 \<le> Index r"
  shows "\<exists>j. released (collect (take k as)) = take j (released (collect as))
           \<and> map Index (released (collect (take k as))) = map int [0..<j]
           \<and> int j \<notin> Index ` set (take k as)"
proof -
  define xs where "xs = take k as"
  define j where "j = nat (next_idx (collect xs))"
  have dx: "distinct (map Index xs)"
    using d by (simp add: xs_def take_map [symmetric])
  have nx: "\<forall>r \<in> set xs. 0 \<le> Index r"
    using nn set_take_subset [of k as] by (auto simp: xs_def)
  from collect_inv [OF dx nx]
  have inv: "collector_inv xs (collect xs)"
    and none: "map_of (pending (collect xs)) (next_idx (collect xs)) = None"
    by simp_all
  from inv have n: "0 \<le> next_idx (collect xs)"
    and m: "map Index (released (collect xs)) = map int [0..<j]"
    and seen: "\<And>r. r \<in> set xs \<Longrightarrow>
                 Index r < next_idx (collect xs) \<or> map_of (pending (collect xs)) (Index r) = Some r"
    unfolding collector_inv_def j_def by blast+
  have "length (map Index (released (collect xs))) = length (map int [0..<j])"
    by (simp only: m)
  then have len: "length (released (collect xs)) = j"
    by simp
  obtain ys where "released (collect (xs @ drop k as)) = released (collect xs) @ ys"
    using collect_released_append by blast
  then have "released (collect as) = released (collect xs) @ ys"
    by (simp add: xs_def)
  then have 1: "released (collect xs) = take j (released (collect as))"
    using len by simp
  have 3: "int j \<notin> Index ` set xs"
  proof
    assume "int j \<in> Index ` set xs"
    then obtain r where r: "r \<in> set xs" "Index r = int j"
      by (metis imageE)
    with n have "Index r = next_idx (collect xs)"
      by (simp add: j_def)
    with seen [OF r(1)] none show False by simp
  qed
  from 1 m 3 show ?thesis
    unfolding xs_def by blast
qed

lemma collect_complete:
  assumes "distinct (map Index as)" and "Index ` set as = {0..<int (length as)}"
  shows "map Index (released (collect as)) = map int [0..<length as]
     \<and> pending (collect as) = []
     \<and> (\<forall>r \<in> set as. released (collect as) ! nat (Index r) = r)
     \<and> length (released (collect as)) = length as"
proof -
  have nn: "\<forall>r \<in> set as. 0 \<le> Index r"
    using assms(2) by auto
  from collect_final [OF assms]
  have nx: "next_idx (collect as) = int (length as)" and pe: "pending (collect as) = []"
    by simp_all
  from collect_inv [OF assms(1) nn] have inv: "collector_inv as (collect as)"
    by simp
  then have m: "map Index (released (collect as)) = map int [0..<length as]"
    and sub: "set (released (collect as)) \<subseteq> set as"
    unfolding collector_inv_def nx by simp_all
  have "length (map Index (released (collect as))) = length (map int [0..<length as])"
    by (simp only: m)
  then have len: "length (released (collect as)) = length as"
    by simp
  have c: "\<forall>r \<in> set as. released (collect as) ! nat (Index r) = r"
  proof
    fix r assume r: "r \<in> set as"
    then have "Index r \<in> {0..<int (length as)}"
      using assms(2) by blast
    then have i: "0 \<le> Index r" "nat (Index r) < length as"
      by auto
    have "Index (released (collect as) ! nat (Index r))
            = map Index (released (collect as)) ! nat (Index r)"
      using i len by simp
    also have "\<dots> = map int [0..<length as] ! nat (Index r)"
      by (simp only: m)
    also have "\<dots> = Index r"
      using i by simp
    finally have e: "Index (released (collect as) ! nat (Index r)) = Index r" .
    have "released (collect as) ! nat (Index r) \<in> set as"
      using i len sub by (metis nth_mem subsetD)
    with e r assms(1) show "released (collect as) ! nat (Index r) = r"
      by (meson distinct_map inj_onD)
  qed
  from m pe c len show ?thesis by blast
qed

section \<open>Read errors and the totals\<close>















section \<open>The shape of a decoded rune\<close>























section \<open>Lines are newline bytes\<close>




















section \<open>Characters and words on the fast path\<close>


















section \<open>Claims\<close>

text \<open>
  C1. The claim: the result does not depend on the chunk size. The decoding loop runs
  until \<open>data\<close> is empty, so nothing is ever left for \<open>carry\<close>, and the bytes of a
  code point cut by a chunk boundary are each counted as an invalid byte: the two
  bytes of U+00E9 are two characters when read with \<open>BufferSize = 1\<close> and one
  character with \<open>BufferSize = 2\<close>.
\<close>

theorem C1_chunk_size_changes_chars:
  "map_option Chars
     (CountBytes [0xC3, 0xA9] (noMetrics\<lparr>m_Chars := True\<rparr>)
        \<lparr>BufferSize = 1, Locale = utf8Locale\<rparr>) = Some 2
   \<and> map_option Chars
     (CountBytes [0xC3, 0xA9] (noMetrics\<lparr>m_Chars := True\<rparr>)
        \<lparr>BufferSize = 2, Locale = utf8Locale\<rparr>) = Some 1"
  by code_simp

text \<open>
  C2. The claim: the line accumulators are reset on each newline, so that the input
  \<open>"a\nbb\nccc\n"\<close> with only \<open>MaxLineBytes\<close> selected gives 3. The code resets them
  only inside \<open>if m.Lines && b == '\n'\<close>: without \<open>Lines\<close> selected nothing is ever
  reset, the newline bytes are added to the line as well, and the result is 9, the
  length of the input. The test table of \<open>TestCountBytes\<close> expects this 9 and notes
  it as a bug of the implementation.
\<close>

theorem C2_max_line_accumulates:
  "map_option MaxLineBytes
     (CountBytes [0x61, 0x0A, 0x62, 0x62, 0x0A, 0x63, 0x63, 0x63, 0x0A]
        (noMetrics\<lparr>m_MaxLineBytes := True\<rparr>)
        \<lparr>BufferSize = 1024, Locale = utf8Locale\<rparr>) = Some 9"
  by code_simp






text \<open>
  C5. When \<open>utf8.DecodeRune\<close> reports an invalid sequence at the head of \<open>data\<close>,
  the decoding loop goes on with \<open>data[1:]\<close>, exactly one byte further, and runs to
  the end of the data without setting \<open>Err\<close>. The step adds one to \<open>Chars\<close>, to the
  length of the current line in bytes and to its length in characters, each if
  selected; it tests the byte for being the newline (it never is one, so \<open>Lines\<close>
  stays); the byte counts as a non-space for the words; \<open>Bytes\<close> is not touched.
  Example: a lone \<open>0x80\<close> between two U+00E9 makes three characters instead of two.
\<close>

theorem C5_invalid_byte_absorbed:
  assumes "DecodeRune (b # bs) = (RuneError, 1)"
  shows "decode_loop m s (b # bs) = decode_loop m (invalid_byte m s b) bs
     \<and> snd (decode_loop m s (b # bs)) = []
     \<and> Err (res (fst (decode_loop m s (b # bs)))) = Err (res s)
     \<and> Chars (res (invalid_byte m s b)) = Chars (res s) + (if m_Chars m then 1 else 0)
     \<and> curLineBytes (invalid_byte m s b) = curLineBytes s + (if m_MaxLineBytes m then 1 else 0)
     \<and> curLineChars (invalid_byte m s b) = curLineChars s + (if m_MaxLineChars m then 1 else 0)
     \<and> Lines (res (invalid_byte m s b))
           = Lines (res s) + (if m_Lines m \<and> b = 0x0A then 1 else 0)
     \<and> Words (res (invalid_byte m s b))
           = Words (res s) + (if m_Words m \<and> \<not> asciiSpace b \<and> prevSpace s then 1 else 0)
     \<and> Bytes (res (invalid_byte m s b)) = Bytes (res s)
     \<and> map_option Chars (CountBytes [0xC3, 0xA9, 0x80, 0xC3, 0xA9] (noMetrics\<lparr>m_Chars := True\<rparr>)
           \<lparr>BufferSize = 1024, Locale = utf8Locale\<rparr>) = Some 3
     \<and> map_option Chars (CountBytes [0xC3, 0xA9, 0xC3, 0xA9] (noMetrics\<lparr>m_Chars := True\<rparr>)
           \<lparr>BufferSize = 1024, Locale = utf8Locale\<rparr>) = Some 2"
proof -
  have hi: "b \<ge> 0x80" using assms by (rule DecodeRune_invalid_hi)
  then have nl: "b \<noteq> 0x0A" by auto
  have sp: "\<not> asciiSpace b" using hi by (rule not_asciiSpace_hi)
  have step: "decode_loop m s (b # bs) = decode_loop m (invalid_byte m s b) bs"
    using assms by simp
  have err: "Err (res (fst (decode_loop m s (b # bs)))) = Err (res s)"
    using frame_decode_loop [of m s "b # bs"] by (simp add: frame_def)
  have fields: "Chars (res (invalid_byte m s b)) = Chars (res s) + (if m_Chars m then 1 else 0)
     \<and> curLineBytes (invalid_byte m s b) = curLineBytes s + (if m_MaxLineBytes m then 1 else 0)
     \<and> curLineChars (invalid_byte m s b) = curLineChars s + (if m_MaxLineChars m then 1 else 0)
     \<and> Lines (res (invalid_byte m s b)) = Lines (res s)
     \<and> Words (res (invalid_byte m s b))
           = Words (res s) + (if m_Words m \<and> prevSpace s then 1 else 0)
     \<and> Bytes (res (invalid_byte m s b)) = Bytes (res s)"
    using nl sp
    by (simp add: invalid_byte_def word_edge_def line_grow_def count_char_def Let_def)
  have e1: "map_option Chars (CountBytes [0xC3, 0xA9, 0x80, 0xC3, 0xA9] (noMetrics\<lparr>m_Chars := True\<rparr>)
           \<lparr>BufferSize = 1024, Locale = utf8Locale\<rparr>) = Some 3"
    by code_simp
  have e2: "map_option Chars (CountBytes [0xC3, 0xA9, 0xC3, 0xA9] (noMetrics\<lparr>m_Chars := True\<rparr>)
           \<lparr>BufferSize = 1024, Locale = utf8Locale\<rparr>) = Some 2"
    by code_simp
  show ?thesis
    using step decode_loop_left [of m s "b # bs"] err fields nl sp e1 e2
    by simp
qed

theorem C5_witness:
  "DecodeRune [0x80, 0xC3, 0xA9] = (RuneError, 1)
   \<and> decode_loop (noMetrics\<lparr>m_Chars := True\<rparr>) (init_state utf8Locale) [0x80, 0xC3, 0xA9]
       = decode_loop (noMetrics\<lparr>m_Chars := True\<rparr>)
           (invalid_byte (noMetrics\<lparr>m_Chars := True\<rparr>) (init_state utf8Locale) 0x80) [0xC3, 0xA9]
   \<and> Chars (res (invalid_byte (noMetrics\<lparr>m_Chars := True\<rparr>) (init_state utf8Locale) 0x80)) = 1"
proof -
  have d: "DecodeRune [0x80, 0xC3, 0xA9] = (RuneError, 1)"
    by code_simp
  show ?thesis
    using d C5_invalid_byte_absorbed [OF d, of "noMetrics\<lparr>m_Chars := True\<rparr>" "init_state utf8Locale"]
    by (simp add: noMetrics_def init_state_def zeroResult_def)
qed





text \<open>
  C8. Let the results arrive in any order, each index \<open>0 .. n-1\<close> once. Then the
  released list has the indices \<open>0, 1, ..., n-1\<close> in this order, with the result of
  index \<open>i\<close> at position \<open>i\<close>, and nothing stays pending. At every moment (after
  \<open>k\<close> arrivals) the released list is an initial part of the final one, holding the
  indices below some \<open>j\<close>, where \<open>j\<close> is an index not yet arrived: a result waits
  exactly until all results before it have been released.
\<close>

theorem C8_released_in_input_order:
  assumes "distinct (map Index as)" and "Index ` set as = {0..<int (length as)}"
  shows "map Index (released (collect as)) = map int [0..<length as]
     \<and> pending (collect as) = []
     \<and> (\<forall>r \<in> set as. released (collect as) ! nat (Index r) = r)
     \<and> (\<forall>k \<le> length as. \<exists>j.
           released (collect (take k as)) = take j (released (collect as))
           \<and> map Index (released (collect (take k as))) = map int [0..<j]
           \<and> int j \<notin> Index ` set (take k as))"
proof -
  have nn: "\<forall>r \<in> set as. 0 \<le> Index r"
    using assms(2) by auto
  have p: "\<forall>k \<le> length as. \<exists>j.
           released (collect (take k as)) = take j (released (collect as))
           \<and> map Index (released (collect (take k as))) = map int [0..<j]
           \<and> int j \<notin> Index ` set (take k as)"
    using collect_prefix_state [OF assms(1) nn] by blast
  from collect_complete [OF assms] p show ?thesis by blast
qed

theorem C8_witness:
  "distinct (map Index [result_at 2, result_at 0, result_at 1])
   \<and> map Index (released (collect [result_at 2, result_at 0, result_at 1])) = [0, 1, 2]
   \<and> released (collect (take 1 [result_at 2, result_at 0, result_at 1])) = []
   \<and> released (collect (take 2 [result_at 2, result_at 0, result_at 1])) = [result_at 0]"
proof -
  let ?as = "[result_at 2, result_at 0, result_at 1]"
  have d: "distinct (map Index ?as)"
    by (simp add: result_at_def)
  have p: "Index ` set ?as = {0..<int (length ?as)}"
    by (auto simp: result_at_def)
  have 1: "released (collect (take 1 ?as)) = []"
    by code_simp
  have 2: "released (collect (take 2 ?as)) = [result_at 0]"
    by code_simp
  have "map Index (released (collect ?as)) = map int [0..<length ?as]"
    using C8_released_in_input_order [OF d p] by blast
  then have "map Index (released (collect ?as)) = [0, 1, 2]"
    by (simp add: upt_rec)
  with d 1 2 show ?thesis by blast
qed



end
